theory Spec2Isabelle
  imports Main
begin

section \<open>The blocking message queue of pol-core/clib (message queue header)\<close>

text \<open>
  \<^verbatim>\<open>message_queue<Message>\<close> owns a \<^verbatim>\<open>std::list<Message> _queue\<close>, a flag
  \<^verbatim>\<open>bool _cancel\<close>, a mutex and a condition variable. Every member function but
  \<^verbatim>\<open>pop_remaining\<close> runs under the mutex from its first statement to its last, so a
  call is one indivisible transformation of the two data members; the only place where
  a call gives the mutex up in the middle is \<^verbatim>\<open>_notifier.wait\<close> in the two
  \<^verbatim>\<open>pop_wait\<close> overloads.

  The data members are the record below (an identifier cannot start with an underscore:
  \<open>mq_queue\<close> is \<^verbatim>\<open>_queue\<close>, \<open>mq_cancel\<close> is \<^verbatim>\<open>_cancel\<close>). The list's head is
  \<^verbatim>\<open>_queue.front()\<close>.
\<close>

record 'a message_queue =
  mq_queue :: "'a list"
  mq_cancel :: bool

text \<open>\<^verbatim>\<open>struct Canceled {}\<close>, the only thing the class throws.\<close>

datatype exn = Canceled

text \<open>The constructor: \<^verbatim>\<open>_queue()\<close>, \<^verbatim>\<open>_cancel( false )\<close>.\<close>

definition new_message_queue :: "'a message_queue" where
  "new_message_queue = \<lparr>mq_queue = [], mq_cancel = False\<rparr>"

subsection \<open>The list operations the class uses\<close>

text \<open>
  \<^verbatim>\<open>dst.splice( dst.end(), src )\<close> moves every element of \<open>src\<close> behind the last
  element of \<open>dst\<close>, in order, and leaves \<open>src\<close> empty. The pair is (\<open>dst\<close>, \<open>src\<close>)
  after the call.
\<close>

definition splice_end :: "'a list \<Rightarrow> 'a list \<Rightarrow> 'a list \<times> 'a list" where
  "splice_end dst src = (dst @ src, [])"

subsection \<open>Insertion\<close>

text \<open>
  \<^verbatim>\<open>push( Message const& msg )\<close>: a one-element list \<open>tmp\<close> is built outside the lock
  and spliced behind \<^verbatim>\<open>_queue\<close> inside. \<^verbatim>\<open>push_move\<close> differs only in moving the
  message into \<open>tmp\<close>. (\<^verbatim>\<open>notify_one\<close> has no effect on the data members; see the
  thread model further down.)
\<close>

definition push :: "'a \<Rightarrow> 'a message_queue \<Rightarrow> 'a message_queue" where
  "push msg s =
     (let tmp = [] @ [msg];
          (q, tmp') = splice_end (mq_queue s) tmp
      in s\<lparr>mq_queue := q\<rparr>)"

definition push_move :: "'a \<Rightarrow> 'a message_queue \<Rightarrow> 'a message_queue" where
  "push_move msg s =
     (let tmp = [] @ [msg];
          (q, tmp') = splice_end (mq_queue s) tmp
      in s\<lparr>mq_queue := q\<rparr>)"

text \<open>
  \<^verbatim>\<open>push( std::list<Message>& msg_list )\<close>: the caller's list is spliced in directly.
  The result is the caller's list after the call and the new queue.
\<close>

definition push_list :: "'a list \<Rightarrow> 'a message_queue \<Rightarrow> 'a list \<times> 'a message_queue" where
  "push_list msg_list s =
     (let (q, msg_list') = splice_end (mq_queue s) msg_list
      in (msg_list', s\<lparr>mq_queue := q\<rparr>))"

subsection \<open>Inspection\<close>

definition empty_q :: "'a message_queue \<Rightarrow> bool" where
  "empty_q s = (mq_queue s = [])"

definition size_q :: "'a message_queue \<Rightarrow> nat" where
  "size_q s = length (mq_queue s)"

subsection \<open>Removal without waiting\<close>

text \<open>
  \<^verbatim>\<open>bool try_pop( Message* msg )\<close>. \<open>None\<close> is the return value \<^verbatim>\<open>false\<close>, where
  \<^verbatim>\<open>*msg\<close> is not written; \<open>Some x\<close> is \<^verbatim>\<open>true\<close> with \<^verbatim>\<open>*msg == x\<close>.
\<close>

definition try_pop :: "'a message_queue \<Rightarrow> 'a option \<times> 'a message_queue" where
  "try_pop s =
     (case mq_queue s of
        [] \<Rightarrow> (None, s)
      | front # rest \<Rightarrow> (Some front, s\<lparr>mq_queue := rest\<rparr>))"

subsection \<open>Removal with waiting\<close>

text \<open>
  The loop \<^verbatim>\<open>while( _queue.empty() && !_cancel ) _notifier.wait( lock );\<close>.
  \<^verbatim>\<open>wait\<close> releases the mutex, suspends the caller and returns with the mutex held
  again after a notification (or spuriously); in between, other threads may have changed
  the queue. From the point of view of one call the effect of a \<^verbatim>\<open>wait\<close> is
  therefore: the data members have the values the other threads left. The first
  argument of \<open>wait_loop\<close> lists these values, one for each time \<^verbatim>\<open>wait\<close> returns. When
  the loop has to wait and the list is used up, the caller is never woken again: the call
  does not return, which is the value \<open>None\<close>.
\<close>

definition must_wait :: "'a message_queue \<Rightarrow> bool" where
  "must_wait s = (mq_queue s = [] \<and> \<not> mq_cancel s)"

fun wait_loop :: "'a message_queue list \<Rightarrow> 'a message_queue \<Rightarrow> 'a message_queue option" where
  "wait_loop [] s = (if must_wait s then None else Some s)"
| "wait_loop (woken # wakeups) s = (if must_wait s then wait_loop wakeups woken else Some s)"

text \<open>
  What follows the loop in \<^verbatim>\<open>pop_wait( Message* msg )\<close>:
  \<^verbatim>\<open>if( _cancel ) throw Canceled(); *msg = std::move( _queue.front() ); _queue.pop_front();\<close>
  The loop is left only with \<^verbatim>\<open>_cancel\<close> set or \<^verbatim>\<open>_queue\<close> non-empty, so
  \<^verbatim>\<open>front()\<close> of an empty list is reached in no execution; the model gives that
  branch the value \<open>None\<close> as well. \<open>Inr x\<close> is the normal return with \<^verbatim>\<open>*msg == x\<close>.
\<close>

definition pop_front_or_throw :: "'a message_queue \<Rightarrow> ((exn + 'a) \<times> 'a message_queue) option" where
  "pop_front_or_throw s =
     (if mq_cancel s then Some (Inl Canceled, s)
      else (case mq_queue s of
              [] \<Rightarrow> None
            | front # rest \<Rightarrow> Some (Inr front, s\<lparr>mq_queue := rest\<rparr>)))"

definition pop_wait ::
  "'a message_queue list \<Rightarrow> 'a message_queue \<Rightarrow> ((exn + 'a) \<times> 'a message_queue) option" where
  "pop_wait wakeups s =
     (case wait_loop wakeups s of
        None \<Rightarrow> None
      | Some s' \<Rightarrow> pop_front_or_throw s')"

text \<open>
  \<^verbatim>\<open>pop_wait( std::list<Message>* msgs )\<close>: the same loop and the same test of
  \<^verbatim>\<open>_cancel\<close>, then \<^verbatim>\<open>msgs->splice( msgs->end(), _queue )\<close>. \<open>Inr l\<close> is the normal
  return with \<^verbatim>\<open>*msgs == l\<close>; when \<^verbatim>\<open>Canceled\<close> is thrown \<^verbatim>\<open>*msgs\<close> has not been
  written.
\<close>

definition splice_or_throw ::
  "'a list \<Rightarrow> 'a message_queue \<Rightarrow> ((exn + 'a list) \<times> 'a message_queue) option" where
  "splice_or_throw msgs s =
     (if mq_cancel s then Some (Inl Canceled, s)
      else (let (msgs', q) = splice_end msgs (mq_queue s)
            in Some (Inr msgs', s\<lparr>mq_queue := q\<rparr>)))"

definition pop_wait_list ::
  "'a message_queue list \<Rightarrow> 'a list \<Rightarrow> 'a message_queue \<Rightarrow>
     ((exn + 'a list) \<times> 'a message_queue) option" where
  "pop_wait_list wakeups msgs s =
     (case wait_loop wakeups s of
        None \<Rightarrow> None
      | Some s' \<Rightarrow> splice_or_throw msgs s')"

text \<open>\<^verbatim>\<open>pop_remaining( std::list<Message>* msgs )\<close>: the splice alone, without the lock.\<close>

definition pop_remaining :: "'a list \<Rightarrow> 'a message_queue \<Rightarrow> 'a list \<times> 'a message_queue" where
  "pop_remaining msgs s =
     (let (msgs', q) = splice_end msgs (mq_queue s)
      in (msgs', s\<lparr>mq_queue := q\<rparr>))"

subsection \<open>Cancellation\<close>

text \<open>\<^verbatim>\<open>cancel()\<close>: \<^verbatim>\<open>_cancel = true; _notifier.notify_all();\<close>\<close>

definition cancel :: "'a message_queue \<Rightarrow> 'a message_queue" where
  "cancel s = s\<lparr>mq_cancel := True\<rparr>"

section \<open>The interface as data\<close>

text \<open>
  One constructor for each public member function, with the arguments the caller passes
  in (\<open>PushList\<close> is \<^verbatim>\<open>push( std::list<Message>& )\<close>, \<open>PopWaitList\<close> is
  \<^verbatim>\<open>pop_wait( std::list<Message>* )\<close>; their argument is the caller's list before the
  call), and one reply for each way a call can end.
\<close>

datatype 'a call =
    Push 'a
  | PushList "'a list"
  | PushMove 'a
  | Empty
  | Size
  | TryPop
  | PopWait
  | PopWaitList "'a list"
  | PopRemaining "'a list"
  | Cancel

datatype 'a reply =
    Void
  | Flag bool
  | Count nat
  | NoMsg
  | Msg 'a
  | Msgs "'a list"
  | Threw exn

text \<open>
  \<open>Void\<close>: a \<^verbatim>\<open>void\<close> function returned and wrote nothing to its caller.
  \<open>Flag\<close>, \<open>Count\<close>: the values of \<^verbatim>\<open>empty()\<close> and \<^verbatim>\<open>size()\<close>.
  \<open>NoMsg\<close>: \<^verbatim>\<open>try_pop\<close> returned \<^verbatim>\<open>false\<close>. \<open>Msg x\<close>: \<^verbatim>\<open>try_pop\<close> returned
  \<^verbatim>\<open>true\<close>, or \<^verbatim>\<open>pop_wait\<close> returned, with \<^verbatim>\<open>*msg == x\<close>. \<open>Msgs l\<close>: the caller's
  list after the call. \<open>Threw e\<close>: the call ended by throwing \<open>e\<close>.
  The result \<open>None\<close> of \<open>perform\<close> is a call that does not return.
\<close>

fun perform ::
  "'a message_queue list \<Rightarrow> 'a call \<Rightarrow> 'a message_queue \<Rightarrow>
     ('a reply \<times> 'a message_queue) option" where
  "perform w (Push msg) s = Some (Void, push msg s)"
| "perform w (PushList msg_list) s = (let (l, s') = push_list msg_list s in Some (Msgs l, s'))"
| "perform w (PushMove msg) s = Some (Void, push_move msg s)"
| "perform w Empty s = Some (Flag (empty_q s), s)"
| "perform w Size s = Some (Count (size_q s), s)"
| "perform w TryPop s =
     (case try_pop s of
        (None, s') \<Rightarrow> Some (NoMsg, s')
      | (Some x, s') \<Rightarrow> Some (Msg x, s'))"
| "perform w PopWait s =
     (case pop_wait w s of
        None \<Rightarrow> None
      | Some (Inl e, s') \<Rightarrow> Some (Threw e, s')
      | Some (Inr x, s') \<Rightarrow> Some (Msg x, s'))"
| "perform w (PopWaitList msgs) s =
     (case pop_wait_list w msgs s of
        None \<Rightarrow> None
      | Some (Inl e, s') \<Rightarrow> Some (Threw e, s')
      | Some (Inr l, s') \<Rightarrow> Some (Msgs l, s'))"
| "perform w (PopRemaining msgs) s = (let (l, s') = pop_remaining msgs s in Some (Msgs l, s'))"
| "perform w Cancel s = Some (Void, cancel s)"

text \<open>
  A caller that pushes the messages of a list one after the other, and a caller that makes
  a list of calls one after the other (each with the wake-ups its own waiting would see).
  The second stops where a call does not return.
\<close>

fun push_all :: "'a list \<Rightarrow> 'a message_queue \<Rightarrow> 'a message_queue" where
  "push_all [] s = s"
| "push_all (p # ps) s = push_all ps (push p s)"

fun perform_all ::
  "('a message_queue list \<times> 'a call) list \<Rightarrow> 'a message_queue \<Rightarrow>
     ('a reply list \<times> 'a message_queue) option" where
  "perform_all [] s = Some ([], s)"
| "perform_all ((w, c) # cs) s =
     (case perform w c s of
        None \<Rightarrow> None
      | Some (r, s') \<Rightarrow>
          (case perform_all cs s' of
             None \<Rightarrow> None
           | Some (rs, s'') \<Rightarrow> Some (r # rs, s'')))"

section \<open>Threads\<close>

text \<open>
  The mutex and the condition variable only matter when several threads use one queue.
  A thread here makes one call. It is \<open>Ready\<close> before it has taken the mutex, \<open>Waiting\<close>
  while it is suspended in \<^verbatim>\<open>_notifier.wait( lock )\<close> (the mutex released),
  \<open>Notified\<close> once it has been unblocked and has to take the mutex again to go on with
  the \<^verbatim>\<open>while\<close> loop, and \<open>Finished\<close> with its reply when the call has returned or
  thrown.
\<close>

datatype 'a status =
    Ready "'a call"
  | Waiting "'a call"
  | Notified "'a call"
  | Finished "'a reply"

record 'a system =
  shared :: "'a message_queue"
  threads :: "'a status list"

text \<open>
  What a call does to \<^verbatim>\<open>_notifier\<close> before it releases the mutex: the three pushes
  call \<^verbatim>\<open>notify_one()\<close>, \<^verbatim>\<open>cancel\<close> calls \<^verbatim>\<open>notify_all()\<close>, the others nothing.
\<close>

datatype notification = NotifyNobody | NotifyOne | NotifyAll

fun notification_of :: "'a call \<Rightarrow> notification" where
  "notification_of (Push msg) = NotifyOne"
| "notification_of (PushList msg_list) = NotifyOne"
| "notification_of (PushMove msg) = NotifyOne"
| "notification_of Cancel = NotifyAll"
| "notification_of c = NotifyNobody"

text \<open>
  \<^verbatim>\<open>pop_remaining\<close> takes no lock (the header calls it unsafe): it is for a caller that
  is alone with the queue, and the thread model gives it no step.
\<close>

fun takes_mutex :: "'a call \<Rightarrow> bool" where
  "takes_mutex (PopRemaining msgs) = False"
| "takes_mutex c = True"

fun is_waiting :: "'a status \<Rightarrow> bool" where
  "is_waiting (Waiting c) = True"
| "is_waiting st = False"

fun wake :: "'a status \<Rightarrow> 'a status" where
  "wake (Waiting c) = Notified c"
| "wake st = st"

text \<open>
  \<^verbatim>\<open>notify_one()\<close> unblocks one of the threads waiting on the condition variable, if
  there is any; which one is not determined, and the number \<open>k\<close> is the choice.
  \<^verbatim>\<open>notify_all()\<close> unblocks all of them.
\<close>

definition waiters :: "'a status list \<Rightarrow> nat list" where
  "waiters ths = filter (\<lambda>i. is_waiting (ths ! i)) [0..<length ths]"

definition notify_one :: "nat \<Rightarrow> 'a status list \<Rightarrow> 'a status list" where
  "notify_one k ths =
     (case waiters ths of
        [] \<Rightarrow> ths
      | i # rest \<Rightarrow>
          (let t = (i # rest) ! (k mod length (i # rest)) in ths[t := wake (ths ! t)]))"

definition notify_all :: "'a status list \<Rightarrow> 'a status list" where
  "notify_all ths = map wake ths"

fun notify :: "notification \<Rightarrow> nat \<Rightarrow> 'a status list \<Rightarrow> 'a status list" where
  "notify NotifyNobody k ths = ths"
| "notify NotifyOne k ths = notify_one k ths"
| "notify NotifyAll k ths = notify_all ths"

text \<open>
  One step of thread \<open>t\<close>: it takes the mutex and runs until it gives the mutex up. The
  mutex is what makes this one step. For a call that has to wait that is the
  \<^verbatim>\<open>_notifier.wait( lock )\<close> of the loop, with the queue untouched (\<open>perform\<close> with
  no wake-up is one pass through the call: \<open>None\<close> exactly when the loop condition
  holds); for any other it is the end of the call, after the notification.
\<close>

definition critical_section :: "nat \<Rightarrow> nat \<Rightarrow> 'a call \<Rightarrow> 'a system \<Rightarrow> 'a system" where
  "critical_section t k c sys =
     (if takes_mutex c then
        (case perform [] c (shared sys) of
           None \<Rightarrow> sys\<lparr>threads := (threads sys)[t := Waiting c]\<rparr>
         | Some (r, s') \<Rightarrow>
             \<lparr>shared = s',
              threads = (notify (notification_of c) k (threads sys))[t := Finished r]\<rparr>)
      else sys)"

text \<open>
  A thread that is \<open>Ready\<close> enters its call; one that is \<open>Notified\<close> tests the loop
  condition again, which is what entering the call does. A waiting thread cannot run.
\<close>

definition run_thread :: "nat \<Rightarrow> nat \<Rightarrow> 'a system \<Rightarrow> 'a system" where
  "run_thread t k sys =
     (if t < length (threads sys) then
        (case threads sys ! t of
           Ready c \<Rightarrow> critical_section t k c sys
         | Notified c \<Rightarrow> critical_section t k c sys
         | Waiting c \<Rightarrow> sys
         | Finished r \<Rightarrow> sys)
      else sys)"

text \<open>\<^verbatim>\<open>wait\<close> may also end without any notification.\<close>

definition spurious_wakeup :: "nat \<Rightarrow> 'a system \<Rightarrow> 'a system" where
  "spurious_wakeup t sys =
     (if t < length (threads sys)
      then sys\<lparr>threads := (threads sys)[t := wake (threads sys ! t)]\<rparr>
      else sys)"

text \<open>
  A schedule is a list of events: thread \<open>t\<close> makes its step (with the choice \<open>k\<close> for
  a \<^verbatim>\<open>notify_one\<close> in it), or the wait of thread \<open>t\<close> ends spuriously. \<open>scheduled\<close>
  is the set of threads that get a step.
\<close>

datatype event = Run nat nat | Spurious nat

fun occur :: "event \<Rightarrow> 'a system \<Rightarrow> 'a system" where
  "occur (Run t k) sys = run_thread t k sys"
| "occur (Spurious t) sys = spurious_wakeup t sys"

fun run :: "event list \<Rightarrow> 'a system \<Rightarrow> 'a system" where
  "run [] sys = sys"
| "run (e # es) sys = run es (occur e sys)"

fun scheduled :: "event list \<Rightarrow> nat set" where
  "scheduled [] = {}"
| "scheduled (Run t k # es) = insert t (scheduled es)"
| "scheduled (Spurious t # es) = scheduled es"

text \<open>The two calls with a wait loop.\<close>

fun blocking :: "'a call \<Rightarrow> bool" where
  "blocking PopWait = True"
| "blocking (PopWaitList msgs) = True"
| "blocking c = False"

section \<open>Facts about the definitions\<close>

lemma wait_loop_ready: "\<not> must_wait s \<Longrightarrow> wait_loop w s = Some s"
  by (cases w) simp_all

lemma wait_loop_mem: "wait_loop w s = Some s' \<Longrightarrow> s' \<in> set (s # w)"
  by (induction w arbitrary: s) (auto split: if_splits)

lemma wait_loop_exit: "wait_loop w s = Some s' \<Longrightarrow> \<not> must_wait s'"
  by (induction w arbitrary: s) (auto split: if_splits)

text \<open>
  \<open>None\<close> is a call that waits for ever and nothing else: the branch of
  \<open>pop_front_or_throw\<close> for \<^verbatim>\<open>front()\<close> of an empty list is never taken.
\<close>

lemma pop_wait_blocks_iff: "pop_wait w s = None \<longleftrightarrow> wait_loop w s = None"
  by (auto simp: pop_wait_def pop_front_or_throw_def must_wait_def
      split: option.splits list.splits dest: wait_loop_exit)

lemma pop_wait_list_blocks_iff: "pop_wait_list w msgs s = None \<longleftrightarrow> wait_loop w s = None"
  by (auto simp: pop_wait_list_def splice_or_throw_def splice_end_def split: option.splits)

lemma pop_wait_cancelled: "mq_cancel s \<Longrightarrow> pop_wait w s = Some (Inl Canceled, s)"
  by (simp add: pop_wait_def pop_front_or_throw_def wait_loop_ready must_wait_def)

lemma pop_wait_list_cancelled:
  "mq_cancel s \<Longrightarrow> pop_wait_list w msgs s = Some (Inl Canceled, s)"
  by (simp add: pop_wait_list_def splice_or_throw_def wait_loop_ready must_wait_def)

lemma pop_wait_front:
  "\<not> mq_cancel s \<Longrightarrow> mq_queue s = x # xs \<Longrightarrow>
   pop_wait w s = Some (Inr x, s\<lparr>mq_queue := xs\<rparr>)"
  by (simp add: pop_wait_def pop_front_or_throw_def wait_loop_ready must_wait_def)

lemma try_pop_front: "mq_queue s = x # xs \<Longrightarrow> try_pop s = (Some x, s\<lparr>mq_queue := xs\<rparr>)"
  by (simp add: try_pop_def)

lemma mq_queue_push: "mq_queue (push x s) = mq_queue s @ [x]"
  by (simp add: push_def splice_end_def)

lemma mq_cancel_push: "mq_cancel (push x s) = mq_cancel s"
  by (simp add: push_def splice_end_def)

lemma push_all_eq: "push_all ps s = s\<lparr>mq_queue := mq_queue s @ ps\<rparr>"
  by (induction ps arbitrary: s) (simp_all add: push_def splice_end_def)

text \<open>
  Popping as many times as the buffer has elements hands out the whole buffer from the
  front, by \<^verbatim>\<open>try_pop\<close> on any queue and by \<^verbatim>\<open>pop_wait\<close> on one that is not cancelled.
\<close>

lemma perform_all_drain:
  "length pops = length (mq_queue s) \<Longrightarrow>
   \<forall>p \<in> set pops. snd p = TryPop \<or> (snd p = PopWait \<and> \<not> mq_cancel s) \<Longrightarrow>
   perform_all pops s = Some (map Msg (mq_queue s), s\<lparr>mq_queue := []\<rparr>)"
proof (induction pops arbitrary: s)
  case Nil
  then show ?case by simp
next
  case (Cons p pops)
  obtain w c where p: "p = (w, c)" by (cases p)
  from Cons.prems(1) obtain x xs where q: "mq_queue s = x # xs"
    by (cases "mq_queue s") simp_all
  have one: "perform w c s = Some (Msg x, s\<lparr>mq_queue := xs\<rparr>)"
    using Cons.prems(2) q p by (auto simp: try_pop_front pop_wait_front)
  have rest: "perform_all pops (s\<lparr>mq_queue := xs\<rparr>)
                = Some (map Msg xs, s\<lparr>mq_queue := xs\<rparr>\<lparr>mq_queue := []\<rparr>)"
    using Cons.IH [of "s\<lparr>mq_queue := xs\<rparr>"] Cons.prems q by simp
  show ?case using one rest p q by simp
qed

lemma perform_cancelled:
  "mq_cancel s \<Longrightarrow> \<exists>r s'. perform w c s = Some (r, s') \<and> mq_cancel s'"
  by (cases c)
    (simp_all add: push_def push_move_def push_list_def splice_end_def try_pop_def
      pop_wait_cancelled pop_wait_list_cancelled pop_remaining_def cancel_def
      split: list.splits)

section \<open>Properties of single calls\<close>

text \<open>
  C1, as the code has it. On a queue on which \<^verbatim>\<open>cancel()\<close> has been called,
  \<^verbatim>\<open>pop_wait( Message* )\<close> throws \<^verbatim>\<open>Canceled\<close> whether or not the buffer is empty,
  whatever the other threads would do later, and leaves the buffer and the flag as they
  are: the test after the loop is \<^verbatim>\<open>if( _cancel ) throw Canceled();\<close> and does not
  look at the buffer. \<^verbatim>\<open>Canceled\<close> is thrown exactly when \<^verbatim>\<open>_cancel\<close> is set at the
  moment the wait loop is left.
\<close>

theorem pop_wait_after_cancel:
  "(mq_cancel s \<longrightarrow> pop_wait w s = Some (Inl Canceled, s))
   \<and> (pop_wait w s = Some (Inl Canceled, s') \<longleftrightarrow> wait_loop w s = Some s' \<and> mq_cancel s')"
  by (auto simp: pop_wait_cancelled)
     (auto simp: pop_wait_def pop_front_or_throw_def split: option.splits list.splits if_splits)

theorem pop_wait_after_cancel_witness:
  "mq_cancel \<lparr>mq_queue = [3::nat], mq_cancel = True\<rparr>
   \<and> pop_wait [] \<lparr>mq_queue = [3::nat], mq_cancel = True\<rparr>
       = Some (Inl Canceled, \<lparr>mq_queue = [3], mq_cancel = True\<rparr>)
   \<and> wait_loop [\<lparr>mq_queue = [], mq_cancel = True\<rparr>] \<lparr>mq_queue = [], mq_cancel = False\<rparr>
       = Some \<lparr>mq_queue = ([]::nat list), mq_cancel = True\<rparr>
   \<and> pop_wait [\<lparr>mq_queue = [], mq_cancel = True\<rparr>] \<lparr>mq_queue = [], mq_cancel = False\<rparr>
       = Some (Inl Canceled, \<lparr>mq_queue = ([]::nat list), mq_cancel = True\<rparr>)"
proof -
  have c: "mq_cancel \<lparr>mq_queue = [3::nat], mq_cancel = True\<rparr>" by simp
  have l: "wait_loop [\<lparr>mq_queue = [], mq_cancel = True\<rparr>] \<lparr>mq_queue = [], mq_cancel = False\<rparr>
       = Some \<lparr>mq_queue = ([]::nat list), mq_cancel = True\<rparr>"
    by (simp add: must_wait_def)
  show ?thesis
    using c l
      pop_wait_after_cancel [of "\<lparr>mq_queue = [3::nat], mq_cancel = True\<rparr>" "[]"]
      pop_wait_after_cancel [of "\<lparr>mq_queue = [], mq_cancel = False\<rparr>"
        "[\<lparr>mq_queue = [], mq_cancel = True\<rparr>]" "\<lparr>mq_queue = ([]::nat list), mq_cancel = True\<rparr>"]
    by simp
qed

text \<open>
  C1, as the specification states it, fails in its own scenario: after \<^verbatim>\<open>push( 3 )\<close>
  and \<^verbatim>\<open>cancel()\<close> on a new queue, \<^verbatim>\<open>pop_wait\<close> throws \<^verbatim>\<open>Canceled\<close> with the 3
  still in the buffer; it does not return 3.
\<close>

theorem pop_wait_drains_after_cancel_counterexample:
  "pop_wait [] (cancel (push (3::nat) new_message_queue))
     = Some (Inl Canceled, \<lparr>mq_queue = [3], mq_cancel = True\<rparr>)
   \<and> pop_wait [] (cancel (push (3::nat) new_message_queue))
     \<noteq> Some (Inr 3, \<lparr>mq_queue = [], mq_cancel = True\<rparr>)"
  by (simp add: pop_wait_def pop_front_or_throw_def cancel_def push_def splice_end_def
      new_message_queue_def must_wait_def)

text \<open>
  C2, as the code has it. FIFO order: on a queue whose buffer is empty, after the single
  pushes \<open>p1, \<dots>, pn\<close> and no pop in between, \<open>n\<close> pops return \<open>p1, \<dots>, pn\<close>
  in this order and leave the queue as it was before the pushes, where each pop is a
  \<^verbatim>\<open>try_pop\<close> (on any queue) or a \<^verbatim>\<open>pop_wait\<close> on a queue on which \<^verbatim>\<open>cancel()\<close>
  has not been called.
\<close>

theorem fifo_order:
  assumes "mq_queue s = []"
    and "length pops = length ps"
    and "\<forall>p \<in> set pops. snd p = TryPop \<or> (snd p = PopWait \<and> \<not> mq_cancel s)"
  shows "perform_all pops (push_all ps s) = Some (map Msg ps, s)"
proof -
  have "perform_all pops (push_all ps s)
          = Some (map Msg (mq_queue (push_all ps s)), (push_all ps s)\<lparr>mq_queue := []\<rparr>)"
    using assms by (intro perform_all_drain) (simp_all add: push_all_eq)
  then show ?thesis using assms(1) by (simp add: push_all_eq)
qed

theorem fifo_order_witness:
  "mq_queue (new_message_queue :: nat message_queue) = []
   \<and> perform_all [([], TryPop), ([], PopWait), ([], TryPop)]
        (push_all [10, 20, 30] (new_message_queue :: nat message_queue))
       = Some ([Msg 10, Msg 20, Msg 30], new_message_queue)"
proof -
  have e: "mq_queue (new_message_queue :: nat message_queue) = []"
    by (simp add: new_message_queue_def)
  have n: "\<forall>p \<in> set [([], TryPop), ([], PopWait), ([], TryPop)].
             snd p = TryPop
             \<or> (snd p = PopWait \<and> \<not> mq_cancel (new_message_queue :: nat message_queue))"
    by (simp add: new_message_queue_def)
  show ?thesis
    using e fifo_order [OF e _ n, of "[10, 20, 30]"] by simp
qed

text \<open>
  C2, as the specification states it, fails for \<^verbatim>\<open>pop_wait\<close> on a cancelled queue:
  after \<^verbatim>\<open>cancel()\<close>, \<^verbatim>\<open>push( 1 )\<close>, \<^verbatim>\<open>push( 2 )\<close> on a new queue, two calls of
  \<^verbatim>\<open>pop_wait\<close> both throw \<^verbatim>\<open>Canceled\<close> and leave 1 and 2 in the buffer; they do not
  return 1 and 2.
\<close>

theorem fifo_order_cancelled_counterexample:
  "perform_all [([], PopWait), ([], PopWait)]
     (push_all [1, 2] (cancel (new_message_queue :: nat message_queue)))
     = Some ([Threw Canceled, Threw Canceled], \<lparr>mq_queue = [1, 2], mq_cancel = True\<rparr>)
   \<and> perform_all [([], PopWait), ([], PopWait)]
     (push_all [1, 2] (cancel (new_message_queue :: nat message_queue)))
     \<noteq> Some ([Msg 1, Msg 2], cancel new_message_queue)"
  by (simp add: pop_wait_def pop_front_or_throw_def cancel_def push_def splice_end_def
      new_message_queue_def must_wait_def)

text \<open>
  C3. In every queue state, cancelled or not, \<^verbatim>\<open>try_pop\<close> returns \<^verbatim>\<open>false\<close> and
  changes nothing when the buffer is empty, and otherwise removes the head element and
  returns it. Both cases are replies: the call always returns, and never by throwing.
\<close>

theorem try_pop_never_blocks:
  "(mq_queue s = [] \<longrightarrow> try_pop s = (None, s) \<and> perform w TryPop s = Some (NoMsg, s))
   \<and> (mq_queue s \<noteq> [] \<longrightarrow>
        try_pop s = (Some (hd (mq_queue s)), s\<lparr>mq_queue := tl (mq_queue s)\<rparr>)
        \<and> perform w TryPop s = Some (Msg (hd (mq_queue s)), s\<lparr>mq_queue := tl (mq_queue s)\<rparr>))"
  by (cases "mq_queue s") (simp_all add: try_pop_def)

theorem try_pop_never_blocks_witness:
  "try_pop \<lparr>mq_queue = ([]::nat list), mq_cancel = True\<rparr>
     = (None, \<lparr>mq_queue = [], mq_cancel = True\<rparr>)
   \<and> perform [] TryPop \<lparr>mq_queue = ([]::nat list), mq_cancel = True\<rparr>
     = Some (NoMsg, \<lparr>mq_queue = [], mq_cancel = True\<rparr>)
   \<and> try_pop \<lparr>mq_queue = [4::nat, 5], mq_cancel = True\<rparr>
     = (Some 4, \<lparr>mq_queue = [5], mq_cancel = True\<rparr>)
   \<and> perform [] TryPop \<lparr>mq_queue = [4::nat, 5], mq_cancel = True\<rparr>
     = Some (Msg 4, \<lparr>mq_queue = [5], mq_cancel = True\<rparr>)"
  using try_pop_never_blocks [of "\<lparr>mq_queue = ([]::nat list), mq_cancel = True\<rparr>" "[]"]
    try_pop_never_blocks [of "\<lparr>mq_queue = [4::nat, 5], mq_cancel = True\<rparr>" "[]"]
  by simp

text \<open>
  C4. \<^verbatim>\<open>push( std::list<Message>& )\<close> puts the whole list behind the last element of
  the buffer, in the list's own order, and leaves the caller's list empty.
\<close>

theorem push_list_appends:
  "push_list msg_list s = ([], s\<lparr>mq_queue := mq_queue s @ msg_list\<rparr>)"
  by (simp add: push_list_def splice_end_def)

text \<open>
  C5. When \<^verbatim>\<open>pop_wait( std::list<Message>* )\<close> returns normally, the buffer it found
  on leaving the wait loop was not empty, the caller's list has received all of it behind
  its own elements and in the buffer's order (a list that was empty is now the buffer),
  and the buffer is empty.
\<close>

theorem pop_wait_list_takes_all:
  assumes "pop_wait_list w msgs s = Some (Inr l, s')"
  shows "\<exists>s0. wait_loop w s = Some s0 \<and> mq_queue s0 \<noteq> [] \<and> l = msgs @ mq_queue s0
              \<and> s' = s0\<lparr>mq_queue := []\<rparr>"
proof -
  from assms obtain s0 where w: "wait_loop w s = Some s0"
    and r: "splice_or_throw msgs s0 = Some (Inr l, s')"
    by (auto simp: pop_wait_list_def split: option.splits)
  from r have "\<not> mq_cancel s0" "l = msgs @ mq_queue s0" "s' = s0\<lparr>mq_queue := []\<rparr>"
    by (auto simp: splice_or_throw_def splice_end_def split: if_splits)
  moreover from wait_loop_exit [OF w] \<open>\<not> mq_cancel s0\<close> have "mq_queue s0 \<noteq> []"
    by (simp add: must_wait_def)
  ultimately show ?thesis using w by simp
qed

theorem pop_wait_list_takes_all_witness:
  "pop_wait_list [] [] \<lparr>mq_queue = [1::nat, 2, 3], mq_cancel = False\<rparr>
     = Some (Inr [1, 2, 3], \<lparr>mq_queue = [], mq_cancel = False\<rparr>)
   \<and> (\<exists>s0. wait_loop [] \<lparr>mq_queue = [1::nat, 2, 3], mq_cancel = False\<rparr> = Some s0
          \<and> mq_queue s0 \<noteq> [] \<and> [1, 2, 3] = [] @ mq_queue s0
          \<and> \<lparr>mq_queue = [], mq_cancel = False\<rparr> = s0\<lparr>mq_queue := []\<rparr>)"
proof -
  have h: "pop_wait_list [] [] \<lparr>mq_queue = [1::nat, 2, 3], mq_cancel = False\<rparr>
     = Some (Inr [1, 2, 3], \<lparr>mq_queue = [], mq_cancel = False\<rparr>)"
    by (simp add: pop_wait_list_def splice_or_throw_def splice_end_def must_wait_def)
  show ?thesis using h pop_wait_list_takes_all [OF h] by blast
qed

text \<open>
  C6. On a queue on which \<^verbatim>\<open>cancel()\<close> has been called, \<^verbatim>\<open>push( x )\<close> returns
  normally and puts \<open>x\<close> behind the last element of the buffer; the queue stays cancelled;
  and \<^verbatim>\<open>try_pop\<close> hands out what was in the buffer and then \<open>x\<close>.
\<close>

theorem push_after_cancel:
  assumes "mq_cancel s"
  shows "perform w (Push x) s = Some (Void, push x s)
         \<and> mq_queue (push x s) = mq_queue s @ [x]
         \<and> mq_cancel (push x s)
         \<and> perform_all (replicate (Suc (length (mq_queue s))) (w', TryPop)) (push x s)
             = Some (map Msg (mq_queue s @ [x]), s\<lparr>mq_queue := []\<rparr>)"
proof -
  have "perform_all (replicate (Suc (length (mq_queue s))) (w', TryPop)) (push x s)
          = Some (map Msg (mq_queue (push x s)), (push x s)\<lparr>mq_queue := []\<rparr>)"
    by (intro perform_all_drain) (simp_all add: mq_queue_push)
  then show ?thesis using assms
    by (simp add: mq_queue_push mq_cancel_push)
qed

theorem push_after_cancel_witness:
  "mq_cancel (cancel (new_message_queue :: nat message_queue))
   \<and> perform [] (Push 8) (cancel new_message_queue)
       = Some (Void, \<lparr>mq_queue = [8::nat], mq_cancel = True\<rparr>)
   \<and> perform_all [([], TryPop)] (push (8::nat) (cancel new_message_queue))
       = Some ([Msg 8], \<lparr>mq_queue = [], mq_cancel = True\<rparr>)"
proof -
  have h: "mq_cancel (cancel (new_message_queue :: nat message_queue))"
    by (simp add: cancel_def)
  show ?thesis
    using h push_after_cancel [OF h, of "[]" 8 "[]"]
    by (simp add: cancel_def new_message_queue_def push_def splice_end_def)
qed

text \<open>
  C7. \<^verbatim>\<open>cancel()\<close> is idempotent: calling it twice leaves the buffer and the flag as
  calling it once does, and on a queue that is already cancelled it changes nothing.
\<close>

theorem cancel_idempotent:
  "cancel (cancel s) = cancel s \<and> (mq_cancel s \<longrightarrow> cancel s = s)"
  by (simp add: cancel_def)

theorem cancel_idempotent_witness:
  "cancel (cancel \<lparr>mq_queue = [1::nat, 2], mq_cancel = True\<rparr>)
     = cancel \<lparr>mq_queue = [1, 2], mq_cancel = True\<rparr>
   \<and> mq_cancel \<lparr>mq_queue = [1::nat, 2], mq_cancel = True\<rparr>
   \<and> cancel \<lparr>mq_queue = [1::nat, 2], mq_cancel = True\<rparr>
     = \<lparr>mq_queue = [1, 2], mq_cancel = True\<rparr>"
  using cancel_idempotent [of "\<lparr>mq_queue = [1::nat, 2], mq_cancel = True\<rparr>"]
  by simp

text \<open>
  C8. The flag is monotonic: each of the ten member functions, called on a queue whose
  \<^verbatim>\<open>_cancel\<close> is set, returns or throws (none waits) and leaves \<^verbatim>\<open>_cancel\<close> set.
\<close>

theorem cancel_flag_monotonic:
  assumes "mq_cancel s"
  shows "\<exists>r s'. perform w c s = Some (r, s') \<and> mq_cancel s'"
  using assms by (rule perform_cancelled)

theorem cancel_flag_monotonic_witness:
  "mq_cancel \<lparr>mq_queue = [6::nat], mq_cancel = True\<rparr>
   \<and> (\<exists>r s'. perform [] PopWait \<lparr>mq_queue = [6::nat], mq_cancel = True\<rparr> = Some (r, s')
         \<and> mq_cancel s')"
proof -
  have h: "mq_cancel \<lparr>mq_queue = [6::nat], mq_cancel = True\<rparr>" by simp
  show ?thesis using h cancel_flag_monotonic [OF h, of "[]" PopWait] by simp
qed

text \<open>
  C10. When either \<^verbatim>\<open>pop_wait\<close> throws \<^verbatim>\<open>Canceled\<close>, the queue it leaves is the
  queue with which its wait loop ended, buffer and flag: the state the caller passed in
  or one of the states the other threads left at a wake-up, with nothing removed.
\<close>

theorem canceled_leaves_queue:
  "(pop_wait w s = Some (Inl Canceled, s') \<longrightarrow> wait_loop w s = Some s' \<and> s' \<in> set (s # w))
   \<and> (pop_wait_list w msgs s = Some (Inl Canceled, s') \<longrightarrow>
        wait_loop w s = Some s' \<and> s' \<in> set (s # w))"
proof -
  have a: "wait_loop w s = Some s'" if "pop_wait w s = Some (Inl Canceled, s')"
    using that
    by (auto simp: pop_wait_def pop_front_or_throw_def split: option.splits list.splits if_splits)
  have b: "wait_loop w s = Some s'" if "pop_wait_list w msgs s = Some (Inl Canceled, s')"
    using that
    by (auto simp: pop_wait_list_def splice_or_throw_def splice_end_def
        split: option.splits if_splits)
  show ?thesis using a b wait_loop_mem [of w s s'] by blast
qed

theorem canceled_leaves_queue_witness:
  "pop_wait [\<lparr>mq_queue = [], mq_cancel = False\<rparr>, \<lparr>mq_queue = [9], mq_cancel = True\<rparr>]
       \<lparr>mq_queue = [], mq_cancel = False\<rparr>
     = Some (Inl Canceled, \<lparr>mq_queue = [9::nat], mq_cancel = True\<rparr>)
   \<and> pop_wait_list [\<lparr>mq_queue = [], mq_cancel = False\<rparr>, \<lparr>mq_queue = [9], mq_cancel = True\<rparr>]
       [1] \<lparr>mq_queue = [], mq_cancel = False\<rparr>
     = Some (Inl Canceled, \<lparr>mq_queue = [9::nat], mq_cancel = True\<rparr>)
   \<and> wait_loop [\<lparr>mq_queue = [], mq_cancel = False\<rparr>, \<lparr>mq_queue = [9], mq_cancel = True\<rparr>]
       \<lparr>mq_queue = [], mq_cancel = False\<rparr>
     = Some \<lparr>mq_queue = [9::nat], mq_cancel = True\<rparr>"
proof -
  have p: "pop_wait [\<lparr>mq_queue = [], mq_cancel = False\<rparr>, \<lparr>mq_queue = [9], mq_cancel = True\<rparr>]
       \<lparr>mq_queue = [], mq_cancel = False\<rparr>
     = Some (Inl Canceled, \<lparr>mq_queue = [9::nat], mq_cancel = True\<rparr>)"
    by (simp add: pop_wait_def pop_front_or_throw_def must_wait_def)
  have l: "pop_wait_list [\<lparr>mq_queue = [], mq_cancel = False\<rparr>, \<lparr>mq_queue = [9], mq_cancel = True\<rparr>]
       [1] \<lparr>mq_queue = [], mq_cancel = False\<rparr>
     = Some (Inl Canceled, \<lparr>mq_queue = [9::nat], mq_cancel = True\<rparr>)"
    by (simp add: pop_wait_list_def splice_or_throw_def must_wait_def)
  show ?thesis
    using p l
      canceled_leaves_queue [of
        "[\<lparr>mq_queue = [], mq_cancel = False\<rparr>, \<lparr>mq_queue = [9], mq_cancel = True\<rparr>]"
        "\<lparr>mq_queue = [], mq_cancel = False\<rparr>" "\<lparr>mq_queue = [9::nat], mq_cancel = True\<rparr>" "[1]"]
    by simp
qed

section \<open>Properties of the threads\<close>

text \<open>
  A thread's step ends in \<^verbatim>\<open>wait\<close> exactly when the call has a wait loop and the loop
  condition holds, and every waiting thread can be the one \<^verbatim>\<open>notify_one\<close> unblocks.
\<close>

lemma perform_blocks_iff: "perform [] c s = None \<longleftrightarrow> blocking c \<and> must_wait s"
proof (cases c)
  case PopWait
  have "perform [] PopWait s = None \<longleftrightarrow> pop_wait [] s = None"
    by (simp split: option.splits prod.splits sum.splits)
  then show ?thesis using PopWait by (simp add: pop_wait_blocks_iff)
next
  case (PopWaitList msgs)
  have "perform [] (PopWaitList msgs) s = None \<longleftrightarrow> pop_wait_list [] msgs s = None"
    by (simp split: option.splits prod.splits sum.splits)
  then show ?thesis using PopWaitList by (simp add: pop_wait_list_blocks_iff)
qed (simp_all add: push_list_def pop_remaining_def splice_end_def try_pop_def split: list.splits)

lemma notify_one_any:
  assumes "i < length ths" and "is_waiting (ths ! i)"
  shows "\<exists>k. notify_one k ths = ths[i := wake (ths ! i)]"
proof -
  from assms have "i \<in> set (waiters ths)" by (simp add: waiters_def)
  then obtain k where k: "k < length (waiters ths)" "waiters ths ! k = i"
    by (auto simp: in_set_conv_nth)
  then have "notify_one k ths = ths[i := wake (ths ! i)]"
    by (cases "waiters ths") (simp_all add: notify_one_def)
  then show ?thesis ..
qed

lemma wake_idle: "\<not> is_waiting st \<Longrightarrow> wake st = st"
  by (cases st) simp_all

lemma not_waiting_wake: "\<not> is_waiting (wake st)"
  by (cases st) simp_all

lemma length_notify: "length (notify n k ths) = length ths"
  by (cases n) (simp_all add: notify_one_def notify_all_def Let_def split: list.splits)

lemma wake_at_nth:
  "i < length ths \<Longrightarrow>
   ths[t := wake (ths ! t)] ! i = ths ! i \<or> ths[t := wake (ths ! t)] ! i = wake (ths ! i)"
  by (cases "t = i") simp_all

lemma notify_nth:
  "i < length ths \<Longrightarrow> notify n k ths ! i = ths ! i \<or> notify n k ths ! i = wake (ths ! i)"
  by (cases n)
    (simp_all add: notify_one_def notify_all_def Let_def wake_at_nth split: list.splits)

lemma notify_idle:
  "i < length ths \<Longrightarrow> \<not> is_waiting (ths ! i) \<Longrightarrow> notify n k ths ! i = ths ! i"
  using notify_nth [of i ths n k] by (auto simp: wake_idle)

lemma perform_keeps_cancel:
  "mq_cancel s \<Longrightarrow> perform w c s = Some (r, s') \<Longrightarrow> mq_cancel s'"
  using perform_cancelled [of s w c] by auto

lemma perform_blocking_cancelled:
  "mq_cancel s \<Longrightarrow> blocking c \<Longrightarrow> perform w c s = Some (Threw Canceled, s)"
  by (cases c) (simp_all add: pop_wait_cancelled pop_wait_list_cancelled)

lemma blocking_takes_mutex: "blocking c \<Longrightarrow> takes_mutex c"
  by (cases c) simp_all

lemma blocking_notifies_nobody: "blocking c \<Longrightarrow> notification_of c = NotifyNobody"
  by (cases c) simp_all

lemma length_critical_section: "length (threads (critical_section t k c sys)) = length (threads sys)"
  by (simp add: critical_section_def length_notify split: option.splits)

lemma length_occur: "length (threads (occur e sys)) = length (threads sys)"
  by (cases e)
    (simp_all add: run_thread_def spurious_wakeup_def length_critical_section
      split: status.splits)

lemma cancel_critical_section:
  "mq_cancel (shared sys) \<Longrightarrow> mq_cancel (shared (critical_section t k c sys))"
  by (auto simp: critical_section_def split: option.splits dest: perform_keeps_cancel)

lemma cancel_occur: "mq_cancel (shared sys) \<Longrightarrow> mq_cancel (shared (occur e sys))"
  by (cases e)
    (simp_all add: run_thread_def spurious_wakeup_def cancel_critical_section
      split: status.splits)

text \<open>A thread that is not waiting is changed by nobody's step but its own.\<close>

lemma critical_section_other:
  "i < length (threads sys) \<Longrightarrow> i \<noteq> t \<Longrightarrow> \<not> is_waiting (threads sys ! i) \<Longrightarrow>
   threads (critical_section t k c sys) ! i = threads sys ! i"
  by (simp add: critical_section_def notify_idle split: option.splits)

lemma occur_other:
  "i < length (threads sys) \<Longrightarrow> \<not> is_waiting (threads sys ! i) \<Longrightarrow> i \<notin> scheduled [e] \<Longrightarrow>
   threads (occur e sys) ! i = threads sys ! i"
  by (cases e)
    (auto simp: run_thread_def spurious_wakeup_def critical_section_other nth_list_update
      wake_idle split: status.splits)

lemma occur_finished:
  assumes "i < length (threads sys)" and "threads sys ! i = Finished r"
  shows "threads (occur e sys) ! i = Finished r"
proof (cases e)
  case (Run t k)
  show ?thesis
  proof (cases "t = i")
    case True
    then show ?thesis using assms Run by (simp add: run_thread_def)
  next
    case False
    then have "threads (critical_section t k c sys) ! i = Finished r" for c
      using assms by (simp add: critical_section_other)
    then show ?thesis using assms Run by (simp add: run_thread_def split: status.splits)
  qed
next
  case (Spurious t)
  then show ?thesis using assms
    by (cases "t = i") (simp_all add: spurious_wakeup_def)
qed

lemma run_notified_cancelled:
  "i < length (threads sys) \<Longrightarrow> threads sys ! i = Notified c \<Longrightarrow> blocking c \<Longrightarrow>
   mq_cancel (shared sys) \<Longrightarrow> threads (run_thread i k sys) ! i = Finished (Threw Canceled)"
  by (simp add: run_thread_def critical_section_def blocking_takes_mutex
      perform_blocking_cancelled blocking_notifies_nobody)

lemma run_after_cancel:
  assumes "mq_cancel (shared sys)"
    and "i < length (threads sys)"
    and "threads sys ! i = Finished (Threw Canceled) \<or> (\<exists>c. blocking c \<and> threads sys ! i = Notified c)"
  shows "threads (run es sys) ! i =
           (if threads sys ! i = Finished (Threw Canceled) \<or> i \<in> scheduled es
            then Finished (Threw Canceled) else threads sys ! i)"
  using assms
proof (induction es arbitrary: sys)
  case Nil
  then show ?case by simp
next
  case (Cons e es)
  let ?sys = "occur e sys"
  have len: "i < length (threads ?sys)" using Cons.prems(2) by (simp add: length_occur)
  have flag: "mq_cancel (shared ?sys)" using Cons.prems(1) by (rule cancel_occur)
  show ?case
  proof (cases "threads sys ! i = Finished (Threw Canceled)")
    case True
    then have now: "threads ?sys ! i = Finished (Threw Canceled)"
      using Cons.prems(2) by (simp add: occur_finished)
    show ?thesis using Cons.IH [OF flag len] now True by simp
  next
    case False
    with Cons.prems(3) obtain c where c: "blocking c" "threads sys ! i = Notified c" by blast
    show ?thesis
    proof (cases "i \<in> scheduled [e]")
      case True
      then obtain k where e: "e = Run i k" by (cases e) simp_all
      have now: "threads ?sys ! i = Finished (Threw Canceled)"
        using e c Cons.prems(1,2) by (simp add: run_notified_cancelled)
      show ?thesis using Cons.IH [OF flag len] now e by simp
    next
      case notyet: False
      have now: "threads ?sys ! i = Notified c"
        using occur_other [OF Cons.prems(2) _ notyet] c by simp
      have sch: "i \<in> scheduled (e # es) \<longleftrightarrow> i \<in> scheduled es"
        using notyet by (cases e) simp_all
      show ?thesis using Cons.IH [OF flag len] now c sch by simp
    qed
  qed
qed

text \<open>
  C9. Let the threads of a set \<open>W\<close> (\<open>K\<close> of them) be blocked in the wait of a
  \<^verbatim>\<open>pop_wait\<close>, and let another thread make its call of \<^verbatim>\<open>cancel()\<close>. After that
  one call no thread of the system is waiting any more. And however the threads are
  scheduled from then on, whatever the others push or pop in between, each thread of \<open>W\<close>
  that gets a step has ended its \<^verbatim>\<open>pop_wait\<close> by throwing \<^verbatim>\<open>Canceled\<close>, and each one
  that has not had a step yet is unblocked and ready to take it.
\<close>

theorem cancel_wakes_all_waiters:
  assumes "c < length (threads sys)" and "threads sys ! c = Ready Cancel"
    and "\<forall>t \<in> W. t < length (threads sys) \<and> (\<exists>b. blocking b \<and> threads sys ! t = Waiting b)"
  shows "(\<forall>t < length (threads (run_thread c k sys)).
            \<not> is_waiting (threads (run_thread c k sys) ! t))
         \<and> (\<forall>es. \<forall>t \<in> W. threads (run es (run_thread c k sys)) ! t =
               (if t \<in> scheduled es then Finished (Threw Canceled) else wake (threads sys ! t)))"
proof -
  let ?sys = "run_thread c k sys"
  have sys': "?sys = \<lparr>shared = cancel (shared sys),
                      threads = (map wake (threads sys))[c := Finished Void]\<rparr>"
    using assms(1,2) by (simp add: run_thread_def critical_section_def notify_all_def)
  have none: "\<forall>t < length (threads ?sys). \<not> is_waiting (threads ?sys ! t)"
    using assms(1) by (simp add: sys' nth_list_update not_waiting_wake)
  have flag: "mq_cancel (shared ?sys)" by (simp add: sys' cancel_def)
  have each: "threads (run es ?sys) ! t =
               (if t \<in> scheduled es then Finished (Threw Canceled) else wake (threads sys ! t))"
    if "t \<in> W" for es t
  proof -
    from that assms(3) obtain b where t: "t < length (threads sys)" "blocking b"
      "threads sys ! t = Waiting b" by blast
    then have "t \<noteq> c" using assms(2) by auto
    then have now: "threads ?sys ! t = Notified b" using t by (simp add: sys')
    have len: "t < length (threads ?sys)" using t by (simp add: sys')
    show ?thesis
      using run_after_cancel [OF flag len, of es] now t by auto
  qed
  show ?thesis using none each by blast
qed

theorem cancel_wakes_all_waiters_witness:
  "run [Run 0 0, Run 1 0, Run 2 0]
     \<lparr>shared = new_message_queue,
      threads = [Ready PopWait, Ready PopWait, Ready (PopWaitList []), Ready Cancel,
                 Ready (Push (5::nat))]\<rparr>
     = \<lparr>shared = \<lparr>mq_queue = [], mq_cancel = False\<rparr>,
        threads = [Waiting PopWait, Waiting PopWait, Waiting (PopWaitList []), Ready Cancel,
                   Ready (Push 5)]\<rparr>
   \<and> threads (run_thread 3 0
        \<lparr>shared = \<lparr>mq_queue = [], mq_cancel = False\<rparr>,
         threads = [Waiting PopWait, Waiting PopWait, Waiting (PopWaitList []), Ready Cancel,
                    Ready (Push (5::nat))]\<rparr>)
     = [Notified PopWait, Notified PopWait, Notified (PopWaitList []), Finished Void,
        Ready (Push 5)]
   \<and> map (\<lambda>t. threads (run [Run 4 0, Run 1 0, Spurious 0, Run 0 0, Run 2 0]
        (run_thread 3 0
          \<lparr>shared = \<lparr>mq_queue = [], mq_cancel = False\<rparr>,
           threads = [Waiting PopWait, Waiting PopWait, Waiting (PopWaitList []), Ready Cancel,
                      Ready (Push (5::nat))]\<rparr>)) ! t) [0, 1, 2]
     = [Finished (Threw Canceled), Finished (Threw Canceled), Finished (Threw Canceled)]"
proof -
  let ?sys = "\<lparr>shared = \<lparr>mq_queue = [], mq_cancel = False\<rparr>,
         threads = [Waiting PopWait, Waiting PopWait, Waiting (PopWaitList []), Ready Cancel,
                    Ready (Push (5::nat))]\<rparr>"
  have reach: "run [Run 0 0, Run 1 0, Run 2 0]
     \<lparr>shared = new_message_queue,
      threads = [Ready PopWait, Ready PopWait, Ready (PopWaitList []), Ready Cancel,
                 Ready (Push (5::nat))]\<rparr> = ?sys"
    by (simp add: run_thread_def critical_section_def new_message_queue_def pop_wait_def
        pop_wait_list_def must_wait_def)
  have c: "3 < length (threads ?sys)" "threads ?sys ! 3 = Ready Cancel"
    by simp_all
  have w: "\<forall>t \<in> {0, 1, 2}. t < length (threads ?sys)
             \<and> (\<exists>b. blocking b \<and> threads ?sys ! t = Waiting b)"
    by simp
  note all = cancel_wakes_all_waiters [OF c w, of 0]
  have woken: "threads (run_thread 3 0 ?sys)
     = [Notified PopWait, Notified PopWait, Notified (PopWaitList []), Finished Void,
        Ready (Push 5)]"
    by (simp add: run_thread_def critical_section_def notify_all_def)
  from all have "\<forall>t \<in> {0, 1, 2}.
      threads (run [Run 4 0, Run 1 0, Spurious 0, Run 0 0, Run 2 0] (run_thread 3 0 ?sys)) ! t
        = (if t \<in> scheduled [Run 4 0, Run 1 0, Spurious 0, Run 0 0, Run 2 0]
           then Finished (Threw Canceled) else wake (threads ?sys ! t))"
    by blast
  then have thrown: "map (\<lambda>t. threads (run [Run 4 0, Run 1 0, Spurious 0, Run 0 0, Run 2 0]
        (run_thread 3 0 ?sys)) ! t) [0, 1, 2]
     = [Finished (Threw Canceled), Finished (Threw Canceled), Finished (Threw Canceled)]"
    by simp
  show ?thesis using reach woken thrown by simp
qed

text \<open>
  For contrast: \<^verbatim>\<open>notify_one\<close> in \<^verbatim>\<open>push\<close> unblocks one of two waiting threads and
  leaves the other waiting.
\<close>

lemma push_wakes_one:
  "threads (run_thread 2 0
     \<lparr>shared = \<lparr>mq_queue = [], mq_cancel = False\<rparr>,
      threads = [Waiting PopWait, Waiting PopWait, Ready (Push (5::nat))]\<rparr>)
   = [Notified PopWait, Waiting PopWait, Finished Void]
   \<and> threads (run_thread 2 1
     \<lparr>shared = \<lparr>mq_queue = [], mq_cancel = False\<rparr>,
      threads = [Waiting PopWait, Waiting PopWait, Ready (Push (5::nat))]\<rparr>)
   = [Waiting PopWait, Notified PopWait, Finished Void]"
  by (simp add: run_thread_def critical_section_def notify_one_def waiters_def upt_rec)

end
